theory Spec2Isabelle
  imports Main "HOL-Library.Char_ord" "HOL-Library.Sublist" "HOL-Library.Multiset"
begin

section \<open>The password generator: data model\<close>

text \<open>
  The program of \<^verbatim>\<open>password_generator.py\<close> reads a word list, draws from two random
  sources (the module \<^verbatim>\<open>random\<close> and the module \<^verbatim>\<open>secrets\<close>), reads the clock and
  appends to two log files. All of that is the \<open>world\<close> below, passed in and returned.

  Text is a list of characters with code points below 256. White space is what
  \<^verbatim>\<open>str.strip()\<close> removes among them: the code points 9 to 13, 28 to 32, 133 and 160. The case
  conversions are those of Python on ASCII letters and leave every other character as it
  is, so what is proved about the case of a word is stated for words of ASCII characters.
\<close>

datatype error = ValueError string | OSError

datatype log_path = MEMORABLE_LOG | RANDOM_LOG

record world =
  nouns_file :: "string option"
  memorable_log :: string
  random_log :: string
  now :: string
  prng :: "nat \<Rightarrow> nat"
  csprng :: "nat \<Rightarrow> nat"

text \<open>
  \<open>nouns_file\<close> is the text of the word list as Python reads it in text mode (line ends
  already \<open>\n\<close>), \<open>None\<close> when the file cannot be opened. The two logs are the texts of
  the two files. \<open>now\<close> is what \<^verbatim>\<open>timestamp()\<close> returns. \<open>prng\<close> and \<open>csprng\<close> are the
  draws still to come from \<^verbatim>\<open>random\<close> and from \<^verbatim>\<open>secrets\<close>: draw number \<open>0\<close> is the next one.
\<close>

definition is_value_error :: "error + 'a \<Rightarrow> bool" where
  "is_value_error r = (case r of Inl (ValueError m) \<Rightarrow> True | _ \<Rightarrow> False)"

definition succeeds :: "error + 'a \<Rightarrow> bool" where
  "succeeds r = (case r of Inl e \<Rightarrow> False | Inr v \<Rightarrow> True)"

subsection \<open>The constants of the module \<^verbatim>\<open>string\<close>\<close>

definition LF :: char where
  "LF = CHR 0x0A"

definition ascii_lowercase :: string where
  "ascii_lowercase = ''abcdefghijklmnopqrstuvwxyz''"

definition ascii_uppercase :: string where
  "ascii_uppercase = ''ABCDEFGHIJKLMNOPQRSTUVWXYZ''"

definition digits :: string where
  "digits = ''0123456789''"

definition punctuation :: string where
  "punctuation = ''!'' @ [CHR 0x22] @ ''#$%&'' @ [CHR 0x27] @ ''()*+,-./:;<=>?@[''
     @ [CHR 0x5C] @ '']^_'' @ [CHR 0x60] @ ''{|}~''"

subsection \<open>The string methods the program calls\<close>

definition is_upper :: "char \<Rightarrow> bool" where
  "is_upper c = (CHR ''A'' \<le> c \<and> c \<le> CHR ''Z'')"

definition is_lower :: "char \<Rightarrow> bool" where
  "is_lower c = (CHR ''a'' \<le> c \<and> c \<le> CHR ''z'')"

definition to_lower :: "char \<Rightarrow> char" where
  "to_lower c = (if is_upper c then char_of (of_char c + (32::nat)) else c)"

definition to_upper :: "char \<Rightarrow> char" where
  "to_upper c = (if is_lower c then char_of (of_char c - (32::nat)) else c)"

definition lower :: "string \<Rightarrow> string" where
  "lower s = map to_lower s"

definition upper :: "string \<Rightarrow> string" where
  "upper s = map to_upper s"

text \<open>
  \<^verbatim>\<open>str.title()\<close>: a cased character that follows a cased character is lowered, a cased
  character that follows anything else (or starts the string) is raised.
\<close>

fun title_from :: "bool \<Rightarrow> string \<Rightarrow> string" where
  "title_from previous_is_cased [] = []"
| "title_from previous_is_cased (c # cs) =
     (if is_lower c then
        (if previous_is_cased then c else to_upper c) # title_from True cs
      else if is_upper c then
        (if previous_is_cased then to_lower c else c) # title_from True cs
      else c # title_from False cs)"

definition title :: "string \<Rightarrow> string" where
  "title s = title_from False s"

definition is_space :: "char \<Rightarrow> bool" where
  "is_space c =
     (let n = (of_char c :: nat)
      in (9 \<le> n \<and> n \<le> 13) \<or> (28 \<le> n \<and> n \<le> 32) \<or> n = 133 \<or> n = 160)"

definition strip :: "string \<Rightarrow> string" where
  "strip s = rev (dropWhile is_space (rev (dropWhile is_space s)))"

fun join :: "string \<Rightarrow> string list \<Rightarrow> string" where
  "join sep [] = []"
| "join sep [x] = x"
| "join sep (x # y # ys) = x @ sep @ join sep (y # ys)"

text \<open>
  The lines a text file yields when it is iterated: each one up to and including its
  \<open>\n\<close>, and a last one without \<open>\n\<close> when the text does not end in one.
\<close>

fun file_lines_from :: "string \<Rightarrow> string \<Rightarrow> string list" where
  "file_lines_from cur [] = (if cur = [] then [] else [cur])"
| "file_lines_from cur (c # cs) =
     (if c = LF then (cur @ [c]) # file_lines_from [] cs
      else file_lines_from (cur @ [c]) cs)"

definition file_lines :: "string \<Rightarrow> string list" where
  "file_lines text = file_lines_from [] text"

text \<open>
  \<^verbatim>\<open>words[:limit]\<close>: a limit below zero counts from the end of the list.
\<close>

definition slice_to :: "int \<Rightarrow> 'a list \<Rightarrow> 'a list" where
  "slice_to limit xs =
     (if limit < 0 then take (nat (int (length xs) + limit)) xs else take (nat limit) xs)"

subsection \<open>The random sources\<close>

text \<open>
  \<^verbatim>\<open>random.choice(seq)\<close> and \<^verbatim>\<open>secrets.choice(seq)\<close> return \<open>seq[k]\<close> for a \<open>k\<close> below
  \<open>len(seq)\<close> that the source draws. The model takes the next draw modulo the bound.
\<close>

definition random_below :: "nat \<Rightarrow> world \<Rightarrow> nat \<times> world" where
  "random_below n w = (prng w 0 mod n, w\<lparr>prng := (\<lambda>i. prng w (Suc i))\<rparr>)"

definition secrets_below :: "nat \<Rightarrow> world \<Rightarrow> nat \<times> world" where
  "secrets_below n w = (csprng w 0 mod n, w\<lparr>csprng := (\<lambda>i. csprng w (Suc i))\<rparr>)"

text \<open>
  \<^verbatim>\<open>random.sample(pool, k)\<close> is library code. The model is its own loop for a small
  population: draw a position of what is left of the pool, take the word there, move the
  last word into the gap. The caller has checked \<open>k \<le> len(pool)\<close>, so every position drawn
  is in range.
\<close>

fun sample :: "'a list \<Rightarrow> nat \<Rightarrow> world \<Rightarrow> 'a list \<times> world" where
  "sample pool 0 w = ([], w)"
| "sample pool (Suc k) w =
     (let (j, w1) = random_below (length pool) w;
          (rest, w2) = sample (butlast (pool[j := last pool])) k w1
      in (pool ! j # rest, w2))"

section \<open>The program\<close>

definition timestamp :: "world \<Rightarrow> string" where
  "timestamp w = now w"

definition log_line :: "world \<Rightarrow> string \<Rightarrow> string" where
  "log_line w password = timestamp w @ ''  |  '' @ password @ [LF]"

definition append_log :: "log_path \<Rightarrow> string \<Rightarrow> world \<Rightarrow> world" where
  "append_log p password w =
     (case p of
        MEMORABLE_LOG \<Rightarrow> w\<lparr>memorable_log := memorable_log w @ log_line w password\<rparr>
      | RANDOM_LOG \<Rightarrow> w\<lparr>random_log := random_log w @ log_line w password\<rparr>)"

definition load_nouns :: "int option \<Rightarrow> world \<Rightarrow> error + string list" where
  "load_nouns limit w =
     (case nouns_file w of
        None \<Rightarrow> Inl OSError
      | Some text \<Rightarrow>
          (let words = [strip line. line \<leftarrow> file_lines text, strip line \<noteq> []]
           in case limit of
                None \<Rightarrow> Inr words
              | Some m \<Rightarrow> Inr (slice_to m words)))"

definition apply_case :: "string \<Rightarrow> string \<Rightarrow> world \<Rightarrow> (error + string) \<times> world" where
  "apply_case c wd w =
     (if c = ''lower'' then (Inr (lower wd), w)
      else if c = ''upper'' then (Inr (upper wd), w)
      else if c = ''title'' then (Inr (title wd), w)
      else if c = ''mixed'' then
        (let (i, w1) = random_below 3 w in (Inr ([lower wd, upper wd, title wd] ! i), w1))
      else (Inl (ValueError (''case must be 'lower', 'upper', 'title', or 'mixed'' @ [CHR 0x27])), w))"

text \<open>
  The loop over the sampled words (lines 69 to 74): the case is applied, then one digit
  is drawn from \<^verbatim>\<open>secrets\<close> when asked for. An error of \<open>apply_case\<close> ends the loop.
\<close>

fun process :: "string \<Rightarrow> bool \<Rightarrow> string list \<Rightarrow> world \<Rightarrow> (error + string list) \<times> world" where
  "process c add_digit_each [] w = (Inr [], w)"
| "process c add_digit_each (wd # wds) w =
     (case apply_case c wd w of
        (Inl e, w1) \<Rightarrow> (Inl e, w1)
      | (Inr w2, w1) \<Rightarrow>
          (let (w3, w2') =
                 (if add_digit_each
                  then (let (i, w') = secrets_below (length digits) w1 in (w2 @ [digits ! i], w'))
                  else (w2, w1))
           in case process c add_digit_each wds w2' of
                (Inl e, w4) \<Rightarrow> (Inl e, w4)
              | (Inr processed, w4) \<Rightarrow> (Inr (w3 # processed), w4)))"

text \<open>
  Lines 51 to 53: the pool is the caller's, or the whole word list when none is given.
\<close>

definition the_pool :: "string list option \<Rightarrow> world \<Rightarrow> error + string list" where
  "the_pool nouns_pool w =
     (case nouns_pool of None \<Rightarrow> load_nouns None w | Some p \<Rightarrow> Inr p)"

definition generate_memorable ::
  "int \<Rightarrow> string \<Rightarrow> bool \<Rightarrow> string list option \<Rightarrow> world \<Rightarrow> (error + string) \<times> world" where
  "generate_memorable n_words c add_digit_each nouns_pool w =
     (if n_words \<le> 0 then (Inl (ValueError ''n_words must be >= 1.''), w)
      else case the_pool nouns_pool w of
             Inl e \<Rightarrow> (Inl e, w)
           | Inr pool \<Rightarrow>
               if n_words > int (length pool)
               then (Inl (ValueError ''n_words is larger than the nouns list.''), w)
               else (let (words, w1) = sample pool (nat n_words) w
                     in case process c add_digit_each words w1 of
                          (Inl e, w2) \<Rightarrow> (Inl e, w2)
                        | (Inr processed, w2) \<Rightarrow>
                            (let pwd = join ''-'' processed
                             in (Inr pwd, append_log MEMORABLE_LOG pwd w2))))"

text \<open>
  Lines 89 to 93: the set of characters of \<open>generate_random\<close>. \<^verbatim>\<open>if forbidden:\<close> is false
  for \<open>None\<close> and for an empty collection. The forbidden collection holds characters, as
  at both call sites.
\<close>

definition alphabet_set :: "bool \<Rightarrow> string option \<Rightarrow> char set" where
  "alphabet_set include_punct forbidden =
     (let alphabet = set (ascii_lowercase @ ascii_uppercase @ digits);
          alphabet = (if include_punct then alphabet \<union> set punctuation else alphabet)
      in case forbidden of
           None \<Rightarrow> alphabet
         | Some f \<Rightarrow> (if f \<noteq> [] then alphabet - set f else alphabet))"

text \<open>Line 99: one draw from \<^verbatim>\<open>secrets\<close> for each character.\<close>

fun choose_chars :: "string \<Rightarrow> nat \<Rightarrow> world \<Rightarrow> string \<times> world" where
  "choose_chars alphabet 0 w = ([], w)"
| "choose_chars alphabet (Suc n) w =
     (let (i, w1) = secrets_below (length alphabet) w;
          (cs, w2) = choose_chars alphabet n w1
      in (alphabet ! i # cs, w2))"

definition generate_random ::
  "int \<Rightarrow> bool \<Rightarrow> string option \<Rightarrow> world \<Rightarrow> (error + string) \<times> world" where
  "generate_random len include_punct forbidden w =
     (if len \<le> 0 then (Inl (ValueError ''length must be >= 1.''), w)
      else (let alphabet = alphabet_set include_punct forbidden
            in if alphabet = {}
               then (Inl (ValueError ''No characters available to generate password.''), w)
               else (let alphabet = sorted_list_of_set alphabet;
                         (pwd, w1) = choose_chars alphabet (nat len) w
                     in (Inr pwd, append_log RANDOM_LOG pwd w1))))"

section \<open>The words of the specification\<close>

text \<open>
  The four case modes that \<open>apply_case\<close> knows, and what a case mode makes of a word:
  the lowercase, uppercase or title form, and under \<open>mixed\<close> one of the three.
\<close>

definition valid_case :: "string \<Rightarrow> bool" where
  "valid_case c = (c = ''lower'' \<or> c = ''upper'' \<or> c = ''title'' \<or> c = ''mixed'')"

definition case_form :: "string \<Rightarrow> string \<Rightarrow> string \<Rightarrow> bool" where
  "case_form c wd t =
     (if c = ''lower'' then t = lower wd
      else if c = ''upper'' then t = upper wd
      else if c = ''title'' then t = title wd
      else t = lower wd \<or> t = upper wd \<or> t = title wd)"

text \<open>
  A processed word: the case form of the word, followed by exactly one decimal digit
  when digits are asked for.
\<close>

definition word_form :: "string \<Rightarrow> bool \<Rightarrow> string \<Rightarrow> string \<Rightarrow> bool" where
  "word_form c add_digit_each wd p =
     (if add_digit_each
      then p \<noteq> [] \<and> last p \<in> set digits \<and> case_form c wd (butlast p)
      else case_form c wd p)"

text \<open>
  The segments of a password between its hyphens, as \<^verbatim>\<open>pwd.split("-")\<close> gives them, and
  whether a segment ends in a digit.
\<close>

fun split_on :: "char \<Rightarrow> string \<Rightarrow> string list" where
  "split_on sep [] = [[]]"
| "split_on sep (c # cs) =
     (if c = sep then [] # split_on sep cs
      else (case split_on sep cs of [] \<Rightarrow> [[c]] | s # ss \<Rightarrow> (c # s) # ss))"

definition hyphen_segments :: "string \<Rightarrow> string list" where
  "hyphen_segments pwd = split_on CHR ''-'' pwd"

definition ends_in_digit :: "string \<Rightarrow> bool" where
  "ends_in_digit s = (s \<noteq> [] \<and> last s \<in> set digits)"

section \<open>A world to run the program in\<close>

definition demo_world :: world where
  "demo_world =
     \<lparr>nouns_file = Some (''cat'' @ [LF] @ '' dog'' @ [CHR 0xA0] @ [LF] @ [LF] @ ''sun''),
      memorable_log = [],
      random_log = ''old'' @ [LF],
      now = ''Wed Nov 04 2026 10:00:00'',
      prng = (\<lambda>i. 2 * i + 1),
      csprng = (\<lambda>i. 7 * i + 3)\<rparr>"

section \<open>What the random sources leave alone\<close>

lemma secrets_below_fields [simp]:
  "memorable_log (snd (secrets_below n w)) = memorable_log w"
  "random_log (snd (secrets_below n w)) = random_log w"
  "now (snd (secrets_below n w)) = now w"
  "prng (snd (secrets_below n w)) = prng w"
  "nouns_file (snd (secrets_below n w)) = nouns_file w"
  by (simp_all add: secrets_below_def)

lemma random_below_fields [simp]:
  "memorable_log (snd (random_below n w)) = memorable_log w"
  "random_log (snd (random_below n w)) = random_log w"
  "now (snd (random_below n w)) = now w"
  "csprng (snd (random_below n w)) = csprng w"
  "nouns_file (snd (random_below n w)) = nouns_file w"
  by (simp_all add: random_below_def)

lemma secrets_below_less: "0 < n \<Longrightarrow> fst (secrets_below n w) < n"
  by (simp add: secrets_below_def)

lemma random_below_less: "0 < n \<Longrightarrow> fst (random_below n w) < n"
  by (simp add: random_below_def)

section \<open>Random passwords\<close>

lemma choose_chars_length: "length (fst (choose_chars a n w)) = n"
  by (induction n arbitrary: w) (simp_all add: case_prod_beta Let_def)

lemma choose_chars_set: "a \<noteq> [] \<Longrightarrow> set (fst (choose_chars a n w)) \<subseteq> set a"
  by (induction n arbitrary: w) (simp_all add: case_prod_beta Let_def secrets_below_less)

lemma choose_chars_fields:
  "memorable_log (snd (choose_chars a n w)) = memorable_log w"
  "random_log (snd (choose_chars a n w)) = random_log w"
  "now (snd (choose_chars a n w)) = now w"
  by (induction n arbitrary: w; simp add: case_prod_beta Let_def)+

lemma finite_alphabet_set: "finite (alphabet_set p f)"
  by (simp add: alphabet_set_def Let_def split: option.split)

lemma alphabet_set_eq:
  "alphabet_set p f =
     (set ascii_lowercase \<union> set ascii_uppercase \<union> set digits
        \<union> (if p then set punctuation else {}))
     - (case f of None \<Rightarrow> {} | Some cs \<Rightarrow> set cs)"
  by (auto simp add: alphabet_set_def Let_def split: option.split)

lemma generate_random_ok:
  assumes "1 \<le> len" and "alphabet_set p f \<noteq> {}"
  shows "generate_random len p f w =
    (Inr (fst (choose_chars (sorted_list_of_set (alphabet_set p f)) (nat len) w)),
     append_log RANDOM_LOG (fst (choose_chars (sorted_list_of_set (alphabet_set p f)) (nat len) w))
       (snd (choose_chars (sorted_list_of_set (alphabet_set p f)) (nat len) w)))"
  using assms by (simp add: generate_random_def Let_def case_prod_beta)

lemma generate_random_in_alphabet:
  assumes "fst (generate_random len p f w) = Inr pwd"
  shows "set pwd \<subseteq> alphabet_set p f"
proof -
  have len: "1 \<le> len" and ne: "alphabet_set p f \<noteq> {}"
    using assms by (auto simp add: generate_random_def Let_def split: if_splits)
  have "sorted_list_of_set (alphabet_set p f) \<noteq> []"
    using ne finite_alphabet_set [of p f] by simp
  then have "set (fst (choose_chars (sorted_list_of_set (alphabet_set p f)) (nat len) w))
      \<subseteq> set (sorted_list_of_set (alphabet_set p f))"
    by (rule choose_chars_set)
  then show ?thesis
    using assms finite_alphabet_set [of p f] by (simp add: generate_random_ok [OF len ne])
qed

text \<open>
  Claim C1, as stated, promises a string of \<open>L\<close> characters for every forbidden set. The
  code raises when the forbidden set leaves no character: here with letters and digits
  all forbidden and no punctuation.
\<close>

theorem generate_random_all_forbidden_counterexample:
  "fst (generate_random 8 False (Some (ascii_lowercase @ ascii_uppercase @ digits)) demo_world)
     = Inl (ValueError ''No characters available to generate password.'')"
  by (simp add: generate_random_def alphabet_set_def Let_def)

text \<open>
  Claim C1, amended: for every length \<open>L \<ge> 1\<close>, every \<open>include_punct\<close> flag and every
  forbidden set that leaves the alphabet non-empty, \<open>generate_random\<close> returns a string of
  exactly \<open>L\<close> characters, each a member of the alphabet; the alphabet is lowercase letters,
  uppercase letters and digits, plus punctuation when asked for, minus the forbidden
  characters; and the string the characters are drawn from is that alphabet, sorted and
  without duplicates.
\<close>

theorem generate_random_length_alphabet:
  assumes "1 \<le> len" and "alphabet_set p f \<noteq> {}"
  shows "\<exists>pwd alphabet. fst (generate_random len p f w) = Inr pwd
           \<and> int (length pwd) = len
           \<and> set pwd \<subseteq> alphabet_set p f
           \<and> pwd = fst (choose_chars alphabet (nat len) w)
           \<and> sorted alphabet \<and> distinct alphabet \<and> set alphabet = alphabet_set p f
           \<and> alphabet_set p f =
               (set ascii_lowercase \<union> set ascii_uppercase \<union> set digits
                  \<union> (if p then set punctuation else {}))
               - (case f of None \<Rightarrow> {} | Some cs \<Rightarrow> set cs)"
proof -
  let ?a = "sorted_list_of_set (alphabet_set p f)"
  let ?pwd = "fst (choose_chars ?a (nat len) w)"
  have fin: "finite (alphabet_set p f)" by (rule finite_alphabet_set)
  have r: "fst (generate_random len p f w) = Inr ?pwd"
    using assms by (simp add: generate_random_ok)
  have l: "int (length ?pwd) = len"
    using assms(1) by (simp add: choose_chars_length)
  have s: "set ?pwd \<subseteq> alphabet_set p f"
    using r by (rule generate_random_in_alphabet)
  have a: "sorted ?a \<and> distinct ?a \<and> set ?a = alphabet_set p f"
    using fin by simp
  show ?thesis
    using r l s a alphabet_set_eq [of p f] by blast
qed

theorem generate_random_length_alphabet_witness:
  "(1::int) \<le> 8 \<and> alphabet_set False (Some ''abc'') \<noteq> {}
   \<and> (\<exists>pwd alphabet. fst (generate_random 8 False (Some ''abc'') demo_world) = Inr pwd
           \<and> int (length pwd) = 8
           \<and> set pwd \<subseteq> alphabet_set False (Some ''abc'')
           \<and> pwd = fst (choose_chars alphabet (nat 8) demo_world)
           \<and> sorted alphabet \<and> distinct alphabet
           \<and> set alphabet = alphabet_set False (Some ''abc'')
           \<and> alphabet_set False (Some ''abc'') =
               (set ascii_lowercase \<union> set ascii_uppercase \<union> set digits
                  \<union> (if False then set punctuation else {}))
               - (case Some ''abc'' of None \<Rightarrow> {} | Some cs \<Rightarrow> set cs))"
proof -
  have h1: "(1::int) \<le> 8" by simp
  have h2: "alphabet_set False (Some ''abc'') \<noteq> {}" by code_simp
  from generate_random_length_alphabet [OF h1 h2, of demo_world] h1 h2
  show ?thesis by (intro conjI)
qed

text \<open>
  Claim C4: \<open>generate_random\<close> fails with a \<open>ValueError\<close> exactly when \<open>L \<le> 0\<close> or the
  alphabet that results is empty, and it succeeds for every \<open>L \<ge> 1\<close> with a non-empty
  alphabet.
\<close>

theorem generate_random_fails_iff:
  "is_value_error (fst (generate_random len p f w)) = (len \<le> 0 \<or> alphabet_set p f = {})
   \<and> succeeds (fst (generate_random len p f w)) = (1 \<le> len \<and> alphabet_set p f \<noteq> {})"
  by (simp add: generate_random_def Let_def case_prod_beta is_value_error_def succeeds_def)

text \<open>
  Claim C7: no character of the forbidden collection \<open>F\<close> appears in a password that
  \<open>generate_random\<close> returns when called with \<open>forbidden = F\<close>.
\<close>

theorem generate_random_avoids_forbidden:
  assumes "fst (generate_random len p (Some F) w) = Inr pwd"
  shows "set pwd \<inter> set F = {}"
proof -
  have "set pwd \<subseteq> alphabet_set p (Some F)"
    using assms by (rule generate_random_in_alphabet)
  moreover have "alphabet_set p (Some F) \<inter> set F = {}"
    by (auto simp add: alphabet_set_eq)
  ultimately show ?thesis by blast
qed

theorem generate_random_avoids_forbidden_witness:
  "fst (generate_random 12 True
          (Some (''O0Il|'' @ [CHR 0x60, CHR 0x27, CHR 0x22] @ '' '')) demo_world)
     = Inr ''%-5<CKSZbiqx''
   \<and> set ''%-5<CKSZbiqx'' \<inter> set (''O0Il|'' @ [CHR 0x60, CHR 0x27, CHR 0x22] @ '' '') = {}"
proof -
  have h: "fst (generate_random 12 True
          (Some (''O0Il|'' @ [CHR 0x60, CHR 0x27, CHR 0x22] @ '' '')) demo_world)
     = Inr ''%-5<CKSZbiqx''"
    by code_simp
  from h generate_random_avoids_forbidden [OF h] show ?thesis by (rule conjI)
qed

text \<open>
  Claim C9: an empty forbidden collection (an empty string, list or set, all of them
  the empty collection here) gives the same alphabet as \<open>forbidden = None\<close>, and the two
  calls behave the same for every length and every \<open>include_punct\<close>: same result, same
  world afterwards.
\<close>

theorem generate_random_empty_forbidden:
  "alphabet_set p (Some []) = alphabet_set p None
   \<and> generate_random len p (Some []) w = generate_random len p None w"
  by (simp add: generate_random_def alphabet_set_def)

section \<open>The word list\<close>

lemma strip_no_leading: "dropWhile is_space (strip s) = strip s"
proof (cases "strip s = []")
  case True
  then show ?thesis by simp
next
  case False
  let ?ys = "dropWhile is_space s"
  have split: "?ys = strip s @ rev (takeWhile is_space (rev ?ys))"
  proof -
    have "rev (takeWhile is_space (rev ?ys) @ dropWhile is_space (rev ?ys)) = rev (rev ?ys)"
      by (simp only: takeWhile_dropWhile_id)
    then show ?thesis by (simp only: rev_append rev_rev_ident strip_def)
  qed
  with False have "hd (strip s) = hd ?ys"
    by (metis hd_append2)
  moreover have "?ys \<noteq> []"
  proof
    assume "?ys = []"
    then have "strip s = []" by (simp only: strip_def rev.simps dropWhile.simps)
    with False show False by simp
  qed
  then have "\<not> is_space (hd ?ys)" by (rule hd_dropWhile)
  ultimately have "\<not> is_space (hd (strip s))" by simp
  with False show ?thesis by (cases "strip s") simp_all
qed

lemma strip_idem: "strip (strip s) = strip s"
proof -
  have "dropWhile is_space (rev (strip s)) = rev (strip s)"
    by (simp add: strip_def)
  then show ?thesis
    using strip_no_leading [of s] by (simp add: strip_def [of "strip s"])
qed

lemma slice_to_prefix: "prefix (slice_to m xs) xs"
  by (simp add: slice_to_def take_is_prefix)

lemma slice_to_length: "0 \<le> m \<Longrightarrow> int (length (slice_to m xs)) \<le> m"
  by (simp add: slice_to_def)

lemma concat_file_lines_from: "concat (file_lines_from cur t) = cur @ t"
  by (induction t arbitrary: cur) simp_all

lemma file_lines_from_line:
  "CHR 0x0A \<notin> set cur \<Longrightarrow>
     \<forall>l \<in> set (file_lines_from cur t). l \<noteq> [] \<and> CHR 0x0A \<notin> set (butlast l)"
proof (induction t arbitrary: cur)
  case Nil
  then show ?case by (auto dest: in_set_butlastD)
next
  case (Cons c cs)
  show ?case
  proof (cases "c = CHR 0x0A")
    case True
    have "\<forall>l \<in> set (file_lines_from [] cs). l \<noteq> [] \<and> CHR 0x0A \<notin> set (butlast l)"
      by (rule Cons.IH) simp
    with True Cons.prems show ?thesis by (simp add: LF_def)
  next
    case False
    with Cons.prems have "CHR 0x0A \<notin> set (cur @ [c])" by simp
    then have "\<forall>l \<in> set (file_lines_from (cur @ [c]) cs).
        l \<noteq> [] \<and> CHR 0x0A \<notin> set (butlast l)"
      by (rule Cons.IH)
    with False show ?thesis by (simp add: LF_def)
  qed
qed

lemma file_lines_from_ends:
  "\<forall>l \<in> set (butlast (file_lines_from cur t)). last l = CHR 0x0A"
  by (induction t arbitrary: cur) (simp_all add: LF_def)

lemma strip_parts:
  "\<exists>a b. l = a @ strip l @ b \<and> (\<forall>c \<in> set a. is_space c) \<and> (\<forall>c \<in> set b. is_space c)"
proof -
  let ?ys = "dropWhile is_space l"
  let ?b = "rev (takeWhile is_space (rev ?ys))"
  have "rev (takeWhile is_space (rev ?ys) @ dropWhile is_space (rev ?ys)) = rev (rev ?ys)"
    by (simp only: takeWhile_dropWhile_id)
  then have ys: "?ys = strip l @ ?b"
    by (simp only: rev_append rev_rev_ident strip_def)
  have "l = takeWhile is_space l @ ?ys" by simp
  with ys have "l = takeWhile is_space l @ strip l @ ?b" by simp
  moreover have "\<forall>c \<in> set (takeWhile is_space l). is_space c"
    by (auto dest: set_takeWhileD)
  moreover have "\<forall>c \<in> set ?b. is_space c"
    by (auto dest: set_takeWhileD)
  ultimately show ?thesis by blast
qed

lemma strip_empty_iff: "(strip l = []) = (\<forall>c \<in> set l. is_space c)"
proof
  assume "strip l = []"
  with strip_parts [of l] show "\<forall>c \<in> set l. is_space c"
    by (metis Un_iff append_Nil set_append)
next
  assume "\<forall>c \<in> set l. is_space c"
  then have "dropWhile is_space l = []" by simp
  then show "strip l = []" by (simp only: strip_def rev.simps dropWhile.simps)
qed

lemma stripped_lines:
  "list_all2 (\<lambda>l x. \<exists>a b. l = a @ x @ b \<and> (\<forall>c \<in> set a. is_space c) \<and> (\<forall>c \<in> set b. is_space c))
     (filter (\<lambda>l. \<exists>c \<in> set l. \<not> is_space c) ls)
     [strip line. line \<leftarrow> ls, strip line \<noteq> []]"
proof (induction ls)
  case Nil
  show ?case by simp
next
  case (Cons l ls)
  show ?case
  proof (cases "strip l = []")
    case True
    with Cons show ?thesis by (simp add: strip_empty_iff)
  next
    case False
    then have "\<exists>c \<in> set l. \<not> is_space c" by (simp add: strip_empty_iff)
    with False Cons strip_parts [of l] show ?thesis by simp
  qed
qed

text \<open>
  Claim C10, as stated, bounds the length of the result by every limit \<open>m\<close>. A limit
  below zero is a slice from the end: \<^verbatim>\<open>words[:-1]\<close> drops the last of the three words of
  the file of \<open>demo_world\<close> and keeps two, which is more than \<open>-1\<close>.
\<close>

theorem load_nouns_negative_limit_counterexample:
  "load_nouns (Some (- 1)) demo_world = Inr [''cat'', ''dog'']
   \<and> \<not> int (length [''cat'', ''dog'']) \<le> - 1"
  by (simp add: load_nouns_def demo_world_def file_lines_def LF_def strip_def is_space_def
      slice_to_def)

text \<open>
  Claim C10, amended: for every file content and every limit, \<open>load_nouns\<close> returns a
  list in which every element is non-empty and equal to its own stripped form, and which
  is a prefix of the result without a limit; when the limit \<open>m\<close> is given and is not
  negative, the list has at most \<open>m\<close> elements.

  What stripped means is said without \<open>strip\<close>: no element begins or ends with a white
  space character, the code points being written out. What the result without a limit is
  is said without \<open>file_lines\<close>: the text is cut into lines, each one ending at its first
  line feed and only the last one allowed to have none; the lines that hold a character
  other than white space, in their order, are the elements, each line being its element
  with white space before and after it. So the blank lines are dropped and the white space
  around a word is removed.
\<close>

theorem load_nouns_stripped_prefix:
  assumes "nouns_file w = Some text"
  shows "\<exists>ws full lines. load_nouns limit w = Inr ws \<and> load_nouns None w = Inr full
           \<and> (\<forall>x \<in> set ws. x \<noteq> [] \<and> strip x = x)
           \<and> prefix ws full
           \<and> (\<forall>m. limit = Some m \<and> 0 \<le> m \<longrightarrow> int (length ws) \<le> m)
           \<and> (let white = (\<lambda>c. (of_char c :: nat)
                              \<in> {9, 10, 11, 12, 13, 28, 29, 30, 31, 32, 133, 160})
              in (\<forall>x \<in> set ws. x \<noteq> [] \<and> \<not> white (hd x) \<and> \<not> white (last x))
                 \<and> concat lines = text
                 \<and> (\<forall>l \<in> set lines. l \<noteq> [] \<and> CHR 0x0A \<notin> set (butlast l))
                 \<and> (\<forall>l \<in> set (butlast lines). last l = CHR 0x0A)
                 \<and> list_all2
                      (\<lambda>l x. \<exists>a b. l = a @ x @ b
                                 \<and> (\<forall>c \<in> set a. white c) \<and> (\<forall>c \<in> set b. white c))
                      (filter (\<lambda>l. \<exists>c \<in> set l. \<not> white c) lines) full)"
proof -
  let ?lines = "file_lines text"
  let ?full = "[strip line. line \<leftarrow> ?lines, strip line \<noteq> []]"
  let ?ws = "case limit of None \<Rightarrow> ?full | Some m \<Rightarrow> slice_to m ?full"
  have "(9 \<le> k \<and> k \<le> 13) = (k = 9 \<or> k = 10 \<or> k = 11 \<or> k = 12 \<or> k = 13)"
    and "(28 \<le> k \<and> k \<le> 32) = (k = 28 \<or> k = 29 \<or> k = 30 \<or> k = 31 \<or> k = 32)"
    for k :: nat
    by arith+
  then have white:
    "(\<lambda>c. (of_char c :: nat) \<in> {9, 10, 11, 12, 13, 28, 29, 30, 31, 32, 133, 160}) = is_space"
    by (intro ext) (simp add: is_space_def Let_def disj_ac)
  have r: "load_nouns limit w = Inr ?ws"
    using assms by (simp add: load_nouns_def split: option.split)
  have f: "load_nouns None w = Inr ?full"
    using assms by (simp add: load_nouns_def)
  have p: "prefix ?ws ?full"
    by (simp add: slice_to_prefix split: option.split)
  have ends: "\<not> is_space (hd (strip l)) \<and> \<not> is_space (last (strip l))"
    if ne: "strip l \<noteq> []" for l
  proof -
    have "dropWhile is_space (strip l) = strip l"
      by (rule strip_no_leading)
    with ne have "\<not> is_space (hd (strip l))"
      by (simp add: dropWhile_eq_self_iff)
    moreover have "dropWhile is_space (rev (strip l)) = rev (strip l)"
      by (simp add: strip_def)
    with ne have "\<not> is_space (hd (rev (strip l)))"
      by (simp add: dropWhile_eq_self_iff)
    with ne have "\<not> is_space (last (strip l))" by (simp add: hd_rev)
    ultimately show ?thesis by simp
  qed
  have "\<forall>x \<in> set ?full. x \<noteq> [] \<and> strip x = x
      \<and> \<not> is_space (hd x) \<and> \<not> is_space (last x)"
    by (auto simp add: strip_idem ends)
  moreover have "set ?ws \<subseteq> set ?full"
    using p by (rule set_mono_prefix)
  ultimately have s: "\<forall>x \<in> set ?ws. x \<noteq> [] \<and> strip x = x"
    and e: "\<forall>x \<in> set ?ws. x \<noteq> [] \<and> \<not> is_space (hd x) \<and> \<not> is_space (last x)"
    by blast+
  have l: "\<forall>m. limit = Some m \<and> 0 \<le> m \<longrightarrow> int (length ?ws) \<le> m"
    by (simp add: slice_to_length)
  have c: "concat ?lines = text"
    by (simp add: file_lines_def concat_file_lines_from)
  have sh: "\<forall>l \<in> set ?lines. l \<noteq> [] \<and> CHR 0x0A \<notin> set (butlast l)"
    unfolding file_lines_def by (rule file_lines_from_line) simp
  have en: "\<forall>l \<in> set (butlast ?lines). last l = CHR 0x0A"
    unfolding file_lines_def by (rule file_lines_from_ends)
  have st: "list_all2
      (\<lambda>l x. \<exists>a b. l = a @ x @ b \<and> (\<forall>c \<in> set a. is_space c) \<and> (\<forall>c \<in> set b. is_space c))
      (filter (\<lambda>l. \<exists>c \<in> set l. \<not> is_space c) ?lines) ?full"
    by (rule stripped_lines)
  show ?thesis
    unfolding Let_def white
    using r f s p l e c sh en st by blast
qed

theorem load_nouns_stripped_prefix_witness:
  "nouns_file demo_world
     = Some (''cat'' @ [LF] @ '' dog'' @ [CHR 0xA0] @ [LF] @ [LF] @ ''sun'')
   \<and> load_nouns (Some 2) demo_world = Inr [''cat'', ''dog'']
   \<and> load_nouns None demo_world = Inr [''cat'', ''dog'', ''sun'']
   \<and> (\<exists>ws full lines. load_nouns (Some 2) demo_world = Inr ws
           \<and> load_nouns None demo_world = Inr full
           \<and> (\<forall>x \<in> set ws. x \<noteq> [] \<and> strip x = x)
           \<and> prefix ws full
           \<and> (\<forall>m. Some 2 = Some m \<and> 0 \<le> m \<longrightarrow> int (length ws) \<le> m)
           \<and> (let white = (\<lambda>c. (of_char c :: nat)
                              \<in> {9, 10, 11, 12, 13, 28, 29, 30, 31, 32, 133, 160})
              in (\<forall>x \<in> set ws. x \<noteq> [] \<and> \<not> white (hd x) \<and> \<not> white (last x))
                 \<and> concat lines
                     = ''cat'' @ [LF] @ '' dog'' @ [CHR 0xA0] @ [LF] @ [LF] @ ''sun''
                 \<and> (\<forall>l \<in> set lines. l \<noteq> [] \<and> CHR 0x0A \<notin> set (butlast l))
                 \<and> (\<forall>l \<in> set (butlast lines). last l = CHR 0x0A)
                 \<and> list_all2
                      (\<lambda>l x. \<exists>a b. l = a @ x @ b
                                 \<and> (\<forall>c \<in> set a. white c) \<and> (\<forall>c \<in> set b. white c))
                      (filter (\<lambda>l. \<exists>c \<in> set l. \<not> white c) lines) full))"
proof -
  have h: "nouns_file demo_world
      = Some (''cat'' @ [LF] @ '' dog'' @ [CHR 0xA0] @ [LF] @ [LF] @ ''sun'')"
    by (simp add: demo_world_def)
  have v2: "load_nouns (Some 2) demo_world = Inr [''cat'', ''dog'']"
    by (simp add: load_nouns_def demo_world_def file_lines_def LF_def strip_def is_space_def
        slice_to_def)
  have v: "load_nouns None demo_world = Inr [''cat'', ''dog'', ''sun'']"
    by (simp add: load_nouns_def demo_world_def file_lines_def LF_def strip_def is_space_def)
  from load_nouns_stripped_prefix [OF h, of "Some 2"] h v2 v
  show ?thesis by (intro conjI)
qed

section \<open>Memorable passwords\<close>

subsection \<open>Sampling\<close>

lemma sample_length: "length (fst (sample pool k w)) = k"
  by (induction k arbitrary: pool w) (simp_all add: case_prod_beta Let_def)

lemma sample_fields:
  "memorable_log (snd (sample pool k w)) = memorable_log w"
  "random_log (snd (sample pool k w)) = random_log w"
  "now (snd (sample pool k w)) = now w"
  "csprng (snd (sample pool k w)) = csprng w"
  by (induction k arbitrary: pool w; simp add: case_prod_beta Let_def)+

lemma mset_remove_at:
  assumes "j < length xs"
  shows "add_mset (xs ! j) (mset (butlast (xs[j := last xs]))) = mset xs"
proof (cases xs rule: rev_cases)
  case Nil
  with assms show ?thesis by simp
next
  case (snoc ys l)
  show ?thesis
  proof (cases "j = length ys")
    case True
    with snoc show ?thesis by simp
  next
    case False
    with assms snoc have j: "j < length ys" by simp
    then have "mset (ys[j := l]) = add_mset l (mset ys - {#ys ! j#})"
      by (simp add: mset_update)
    with j snoc show ?thesis
      by (simp add: nth_append list_update_append)
  qed
qed

lemma sample_mset: "k \<le> length pool \<Longrightarrow> mset (fst (sample pool k w)) \<subseteq># mset pool"
proof (induction k arbitrary: pool w)
  case 0
  then show ?case by simp
next
  case (Suc k)
  let ?j = "fst (random_below (length pool) w)"
  let ?rest = "butlast (pool[?j := last pool])"
  from Suc.prems have pos: "0 < length pool" by (cases pool) simp_all
  then have j: "?j < length pool" by (rule random_below_less)
  have "k \<le> length ?rest" using Suc.prems by simp
  then have "mset (fst (sample ?rest k (snd (random_below (length pool) w)))) \<subseteq># mset ?rest"
    by (rule Suc.IH)
  then have "add_mset (pool ! ?j) (mset (fst (sample ?rest k (snd (random_below (length pool) w)))))
      \<subseteq># add_mset (pool ! ?j) (mset ?rest)"
    by simp
  then show ?case
    by (simp add: case_prod_beta Let_def mset_remove_at [OF j])
qed

lemma sample_set: "k \<le> length pool \<Longrightarrow> set (fst (sample pool k w)) \<subseteq> set pool"
  using sample_mset [of k pool w] by (metis set_mset_mono set_mset_mset)

lemma sample_distinct:
  assumes "k \<le> length pool" and "distinct pool"
  shows "distinct (fst (sample pool k w))"
proof -
  have "mset (fst (sample pool k w)) \<subseteq># mset pool"
    using assms(1) by (rule sample_mset)
  then have "\<forall>x. count (mset (fst (sample pool k w))) x \<le> count (mset pool) x"
    by (simp add: subseteq_mset_def)
  moreover have "\<forall>x. count (mset pool) x \<le> 1"
    using assms(2) by (simp add: distinct_count_atmost_1)
  ultimately have "\<forall>x. count (mset (fst (sample pool k w))) x \<le> 1"
    by (meson le_trans)
  then show ?thesis
    by (simp add: distinct_count_atmost_1) (metis le_antisym nat_le_linear not_less_eq_eq count_mset_0_iff le_zero_eq)
qed

subsection \<open>The loop over the words\<close>

lemma apply_case_fields:
  "memorable_log (snd (apply_case c wd w)) = memorable_log w"
  "random_log (snd (apply_case c wd w)) = random_log w"
  "now (snd (apply_case c wd w)) = now w"
  by (simp_all add: apply_case_def case_prod_beta Let_def)

lemma apply_case_valid:
  assumes "valid_case c"
  shows "\<exists>t. fst (apply_case c wd w) = Inr t \<and> case_form c wd t"
proof (cases "c = ''mixed''")
  case True
  have "fst (random_below 3 w) < 3" by (rule random_below_less) simp
  then have "fst (random_below 3 w) = 0 \<or> fst (random_below 3 w) = 1 \<or> fst (random_below 3 w) = 2"
    by arith
  then show ?thesis
    using True by (auto simp add: apply_case_def case_form_def case_prod_beta Let_def)
next
  case False
  with assms show ?thesis
    by (auto simp add: apply_case_def case_form_def valid_case_def)
qed

lemma apply_case_invalid:
  assumes "\<not> valid_case c"
  shows "is_value_error (fst (apply_case c wd w))"
  using assms by (simp add: apply_case_def valid_case_def is_value_error_def)

lemma process_fields:
  "memorable_log (snd (process c d ws w)) = memorable_log w"
  "random_log (snd (process c d ws w)) = random_log w"
  "now (snd (process c d ws w)) = now w"
  by (cases d; induction ws arbitrary: w;
      simp add: case_prod_beta Let_def apply_case_fields split: sum.splits prod.splits)+

lemma digits_nth: "i < 10 \<Longrightarrow> digits ! i \<in> set digits"
  by (rule nth_mem) (simp add: digits_def)

lemma process_valid:
  assumes "valid_case c"
  shows "\<exists>ps. fst (process c d ws w) = Inr ps \<and> list_all2 (word_form c d) ws ps"
proof (induction ws arbitrary: w)
  case Nil
  show ?case by simp
next
  case (Cons wd ws)
  obtain t where t: "fst (apply_case c wd w) = Inr t" and cf: "case_form c wd t"
    using apply_case_valid [OF assms] by blast
  let ?w1 = "snd (apply_case c wd w)"
  let ?p = "if d then t @ [digits ! fst (secrets_below (length digits) ?w1)] else t"
  let ?w2 = "if d then snd (secrets_below (length digits) ?w1) else ?w1"
  obtain ps where ps: "fst (process c d ws ?w2) = Inr ps" and all: "list_all2 (word_form c d) ws ps"
    using Cons.IH by blast
  have "fst (secrets_below (length digits) ?w1) < 10"
    using secrets_below_less [of "length digits" ?w1] by (simp add: digits_def)
  then have "digits ! fst (secrets_below (length digits) ?w1) \<in> set digits"
    by (rule digits_nth)
  with cf have wf: "word_form c d wd ?p"
    by (simp add: word_form_def)
  have "fst (process c d (wd # ws) w) = Inr (?p # ps)"
    using t ps by (cases "apply_case c wd w"; cases "process c d ws ?w2")
      (simp add: case_prod_beta Let_def split: if_splits)
  with wf all show ?case by simp
qed

lemma process_length:
  "fst (process c d ws w) = Inr ps \<Longrightarrow> length ps = length ws"
  by (induction ws arbitrary: w ps)
    (auto simp add: case_prod_beta Let_def split: sum.splits prod.splits if_splits)

lemma process_invalid:
  assumes "\<not> valid_case c" and "ws \<noteq> []"
  shows "is_value_error (fst (process c d ws w))"
proof (cases ws)
  case Nil
  with assms(2) show ?thesis by simp
next
  case (Cons wd rest)
  have "is_value_error (fst (apply_case c wd w))"
    using assms(1) by (rule apply_case_invalid)
  then show ?thesis
    using Cons by (cases "apply_case c wd w") (auto simp add: is_value_error_def split: sum.splits error.splits)
qed

subsection \<open>Hyphens\<close>

lemma is_upper_range: "is_upper c \<Longrightarrow> 65 \<le> (of_char c :: nat) \<and> (of_char c :: nat) \<le> 90"
  by (simp add: is_upper_def less_eq_char_def)

lemma is_lower_range: "is_lower c \<Longrightarrow> 97 \<le> (of_char c :: nat) \<and> (of_char c :: nat) \<le> 122"
  by (simp add: is_lower_def less_eq_char_def)

lemma to_lower_hyphen: "c \<noteq> CHR ''-'' \<Longrightarrow> to_lower c \<noteq> CHR ''-''"
proof (cases "is_upper c")
  case True
  from is_upper_range [OF True] have "(of_char c + 32) mod 256 = (of_char c + 32 :: nat)"
    by simp
  then have "(of_char (to_lower c) :: nat) = of_char c + 32"
    using True by (simp add: to_lower_def)
  with is_upper_range [OF True] have "(of_char (to_lower c) :: nat) \<noteq> of_char CHR ''-''"
    by simp
  then show ?thesis by metis
next
  case False
  assume "c \<noteq> CHR ''-''"
  with False show ?thesis by (simp add: to_lower_def)
qed

lemma to_upper_hyphen: "c \<noteq> CHR ''-'' \<Longrightarrow> to_upper c \<noteq> CHR ''-''"
proof (cases "is_lower c")
  case True
  from is_lower_range [OF True] have "(of_char c :: nat) - 32 < 256"
    by arith
  then have "((of_char c :: nat) - 32) mod 256 = of_char c - 32"
    by (rule mod_less)
  then have "(of_char (to_upper c) :: nat) = of_char c - 32"
    using True by (simp add: to_upper_def)
  with is_lower_range [OF True] have "(of_char (to_upper c) :: nat) \<noteq> 45"
    by arith
  then have "(of_char (to_upper c) :: nat) \<noteq> of_char CHR ''-''"
    by simp
  then show ?thesis by metis
next
  case False
  assume "c \<noteq> CHR ''-''"
  with False show ?thesis by (simp add: to_upper_def)
qed

lemma lower_hyphen: "CHR ''-'' \<notin> set s \<Longrightarrow> CHR ''-'' \<notin> set (lower s)"
proof
  assume no: "CHR ''-'' \<notin> set s" and "CHR ''-'' \<in> set (lower s)"
  then obtain x where x: "x \<in> set s" and "to_lower x = CHR ''-''"
    by (auto simp add: lower_def)
  then have "x = CHR ''-''" using to_lower_hyphen [of x] by blast
  with x no show False by simp
qed

lemma upper_hyphen: "CHR ''-'' \<notin> set s \<Longrightarrow> CHR ''-'' \<notin> set (upper s)"
proof
  assume no: "CHR ''-'' \<notin> set s" and "CHR ''-'' \<in> set (upper s)"
  then obtain x where x: "x \<in> set s" and "to_upper x = CHR ''-''"
    by (auto simp add: upper_def)
  then have "x = CHR ''-''" using to_upper_hyphen [of x] by blast
  with x no show False by simp
qed

lemma title_from_hyphen: "CHR ''-'' \<notin> set s \<Longrightarrow> CHR ''-'' \<notin> set (title_from b s)"
proof (induction s arbitrary: b)
  case Nil
  show ?case by simp
next
  case (Cons a s)
  then have a: "a \<noteq> CHR ''-''" and s: "CHR ''-'' \<notin> set s" by auto
  have "to_lower a \<noteq> CHR ''-''" "to_upper a \<noteq> CHR ''-''"
    using a by (rule to_lower_hyphen, rule to_upper_hyphen)
  with a Cons.IH [OF s] show ?case by auto
qed

lemma case_form_hyphen:
  assumes "case_form c wd t" and "CHR ''-'' \<notin> set wd"
  shows "CHR ''-'' \<notin> set t"
proof -
  have "CHR ''-'' \<notin> set (lower wd)" "CHR ''-'' \<notin> set (upper wd)"
    using assms(2) by (rule lower_hyphen, rule upper_hyphen)
  moreover have "CHR ''-'' \<notin> set (title wd)"
    using assms(2) by (simp add: title_def title_from_hyphen)
  ultimately show ?thesis
    using assms(1) by (auto simp add: case_form_def split: if_splits)
qed

lemma word_form_digit_hyphen:
  assumes "word_form c True wd p" and "CHR ''-'' \<notin> set wd"
  shows "CHR ''-'' \<notin> set p \<and> ends_in_digit p"
proof -
  from assms(1) have ne: "p \<noteq> []" and l: "last p \<in> set digits" and cf: "case_form c wd (butlast p)"
    by (simp_all add: word_form_def)
  have "CHR ''-'' \<notin> set (butlast p)" using cf assms(2) by (rule case_form_hyphen)
  moreover have "last p \<noteq> CHR ''-''" using l by (auto simp add: digits_def)
  moreover have "p = butlast p @ [last p]" using ne by simp
  ultimately have "CHR ''-'' \<notin> set p"
    by (metis Un_iff empty_iff empty_set set_ConsD set_append)
  with ne l show ?thesis by (simp add: ends_in_digit_def)
qed

lemma split_on_no_sep: "sep \<notin> set x \<Longrightarrow> split_on sep x = [x]"
  by (induction x) auto

lemma split_on_append: "sep \<notin> set x \<Longrightarrow> split_on sep (x @ sep # r) = x # split_on sep r"
  by (induction x) auto

lemma split_on_join:
  assumes "ps \<noteq> []" and "\<forall>p \<in> set ps. sep \<notin> set p"
  shows "split_on sep (join [sep] ps) = ps"
  using assms
proof (induction "[sep]" ps rule: join.induct)
  case 1
  then show ?case by simp
next
  case (2 x)
  then show ?case by (simp add: split_on_no_sep)
next
  case (3 x y ys)
  then show ?case by (simp add: split_on_append)
qed

subsection \<open>The password\<close>


lemma generate_memorable_unfold:
  assumes "1 \<le> n" and "the_pool np w = Inr pool" and "n \<le> int (length pool)"
  shows "generate_memorable n c d np w =
    (case fst (process c d (fst (sample pool (nat n) w)) (snd (sample pool (nat n) w))) of
       Inl e \<Rightarrow>
         (Inl e, snd (process c d (fst (sample pool (nat n) w)) (snd (sample pool (nat n) w))))
     | Inr ps \<Rightarrow>
         (Inr (join ''-'' ps),
          append_log MEMORABLE_LOG (join ''-'' ps)
            (snd (process c d (fst (sample pool (nat n) w)) (snd (sample pool (nat n) w))))))"
  using assms
  by (simp add: generate_memorable_def case_prod_beta Let_def split: sum.split)

lemma generate_memorable_valid:
  assumes "1 \<le> n" and "the_pool np w = Inr pool" and "n \<le> int (length pool)"
    and "valid_case c"
  shows "\<exists>ps. fst (generate_memorable n c d np w) = Inr (join ''-'' ps)
           \<and> list_all2 (word_form c d) (fst (sample pool (nat n) w)) ps
           \<and> fst (process c d (fst (sample pool (nat n) w)) (snd (sample pool (nat n) w)))
               = Inr ps"
proof -
  let ?words = "fst (sample pool (nat n) w)"
  let ?w1 = "snd (sample pool (nat n) w)"
  obtain ps where ps: "fst (process c d ?words ?w1) = Inr ps"
    and all: "list_all2 (word_form c d) ?words ps"
    using process_valid [OF assms(4)] by blast
  have "fst (generate_memorable n c d np w) = Inr (join ''-'' ps)"
    using ps by (simp add: generate_memorable_unfold [OF assms(1-3)])
  with all ps show ?thesis by blast
qed

lemma sample_props:
  assumes "1 \<le> n" and "n \<le> int (length pool)"
  shows "int (length (fst (sample pool (nat n) w))) = n"
    and "mset (fst (sample pool (nat n) w)) \<subseteq># mset pool"
    and "set (fst (sample pool (nat n) w)) \<subseteq> set pool"
    and "distinct pool \<Longrightarrow> distinct (fst (sample pool (nat n) w))"
proof -
  have k: "nat n \<le> length pool" using assms by simp
  show "int (length (fst (sample pool (nat n) w))) = n"
    using assms(1) by (simp add: sample_length)
  show "mset (fst (sample pool (nat n) w)) \<subseteq># mset pool" using k by (rule sample_mset)
  show "set (fst (sample pool (nat n) w)) \<subseteq> set pool" using k by (rule sample_set)
  show "distinct pool \<Longrightarrow> distinct (fst (sample pool (nat n) w))"
    using k by (rule sample_distinct)
qed









lemma generate_memorable_invalid:
  assumes "1 \<le> n" and "the_pool np w = Inr pool" and "n \<le> int (length pool)"
    and "\<not> valid_case c"
  shows "is_value_error (fst (generate_memorable n c d np w))"
proof -
  let ?words = "fst (sample pool (nat n) w)"
  have "length ?words = nat n" by (rule sample_length)
  with assms(1) have "?words \<noteq> []" by auto
  with assms(4) have "is_value_error (fst (process c d ?words (snd (sample pool (nat n) w))))"
    by (rule process_invalid)
  then show ?thesis
    by (simp add: generate_memorable_unfold [OF assms(1-3)] is_value_error_def
        split: sum.splits error.splits)
qed

text \<open>
  Claim C3, as stated, lets \<open>generate_memorable\<close> fail when \<open>N\<close> exceeds the number of
  distinct words of the pool. The code compares \<open>N\<close> with \<^verbatim>\<open>len(pool)\<close>, duplicates
  counted: a pool of twice the same word has one distinct word, and \<open>N = 2\<close> succeeds.
\<close>

theorem generate_memorable_duplicate_pool_counterexample:
  "int (length (remdups [''cat'', ''cat''])) < 2
   \<and> fst (generate_memorable 2 ''lower'' False (Some [''cat'', ''cat'']) demo_world)
       = Inr ''cat-cat''"
  by code_simp

text \<open>
  Claim C3, amended: given a readable pool, \<open>generate_memorable\<close> fails with a
  \<open>ValueError\<close> exactly when \<open>N \<le> 0\<close>, or \<open>N\<close> exceeds the length of the pool (duplicates
  counted), or the case mode is not one of \<open>lower\<close>, \<open>upper\<close>, \<open>title\<close>, \<open>mixed\<close>; in all
  other situations it succeeds.
\<close>

theorem generate_memorable_fails_iff:
  assumes "the_pool np w = Inr pool"
  shows "is_value_error (fst (generate_memorable n c d np w))
           = (n \<le> 0 \<or> int (length pool) < n \<or> \<not> valid_case c)
         \<and> succeeds (fst (generate_memorable n c d np w))
           = (1 \<le> n \<and> n \<le> int (length pool) \<and> valid_case c)"
proof (cases "1 \<le> n \<and> n \<le> int (length pool)")
  case False
  then show ?thesis
    using assms by (auto simp add: generate_memorable_def is_value_error_def succeeds_def)
next
  case True
  then have n: "1 \<le> n" and le: "n \<le> int (length pool)" by simp_all
  show ?thesis
  proof (cases "valid_case c")
    case True
    then obtain ps where "fst (generate_memorable n c d np w) = Inr (join ''-'' ps)"
      using generate_memorable_valid [OF n assms le] by blast
    with True n le show ?thesis by (simp add: is_value_error_def succeeds_def)
  next
    case False
    then have "is_value_error (fst (generate_memorable n c d np w))"
      using generate_memorable_invalid [OF n assms le] by blast
    with False n le show ?thesis
      by (auto simp add: is_value_error_def succeeds_def split: sum.splits)
  qed
qed

theorem generate_memorable_fails_iff_witness:
  "the_pool None demo_world = Inr [''cat'', ''dog'', ''sun'']
   \<and> is_value_error (fst (generate_memorable 4 ''lower'' True None demo_world))
       = (4 \<le> (0::int) \<or> int (length [''cat'', ''dog'', ''sun'']) < 4 \<or> \<not> valid_case ''lower'')
   \<and> succeeds (fst (generate_memorable 4 ''lower'' True None demo_world))
       = ((1::int) \<le> 4 \<and> 4 \<le> int (length [''cat'', ''dog'', ''sun'']) \<and> valid_case ''lower'')"
proof -
  have h: "the_pool None demo_world = Inr [''cat'', ''dog'', ''sun'']"
    by (simp add: the_pool_def load_nouns_def demo_world_def file_lines_def LF_def strip_def
        is_space_def)
  from h generate_memorable_fails_iff [OF h, of 4 "''lower''" True] show ?thesis
    by (rule conjI)
qed

text \<open>
  Claim C5, as stated, holds for every pool. \<^verbatim>\<open>random.sample\<close> never takes a position of
  the pool twice, but the pool is \<^verbatim>\<open>list(nouns_pool)\<close> as it comes: a word that stands at
  two positions can be taken twice.
\<close>

theorem generate_memorable_repeated_word_counterexample:
  "fst (sample [''cat'', ''sun'', ''sun''] (nat 2) demo_world) = [''sun'', ''sun'']
   \<and> \<not> distinct [''sun'', ''sun'']
   \<and> fst (generate_memorable 2 ''title'' True (Some [''cat'', ''sun'', ''sun'']) demo_world)
       = Inr ''Sun3-Sun0''"
  by code_simp

text \<open>
  Claim C5, amended: for every pool and every valid \<open>N\<close>, the \<open>N\<close> words that build a
  memorable password are taken from the pool without replacement of positions: no word
  is used more often than it stands in the pool, and when the words of the pool are
  distinct, no word repeats within the password.
\<close>

theorem generate_memorable_sampled_without_replacement:
  assumes "1 \<le> n" and "the_pool np w = Inr pool" and "n \<le> int (length pool)"
    and "valid_case c"
  shows "\<exists>words ps. fst (generate_memorable n c d np w) = Inr (join ''-'' ps)
           \<and> list_all2 (word_form c d) words ps
           \<and> int (length words) = n
           \<and> mset words \<subseteq># mset pool
           \<and> (distinct pool \<longrightarrow> distinct words)"
proof -
  let ?words = "fst (sample pool (nat n) w)"
  obtain ps where "fst (generate_memorable n c d np w) = Inr (join ''-'' ps)"
    and "list_all2 (word_form c d) ?words ps"
    using generate_memorable_valid [OF assms] by blast
  moreover have "int (length ?words) = n" "mset ?words \<subseteq># mset pool"
    "distinct pool \<longrightarrow> distinct ?words"
    using sample_props [OF assms(1,3), of w] by blast+
  ultimately show ?thesis by blast
qed

theorem generate_memorable_sampled_without_replacement_witness:
  "(1::int) \<le> 2
   \<and> the_pool (Some [''cat'', ''dog'', ''sun'']) demo_world = Inr [''cat'', ''dog'', ''sun'']
   \<and> 2 \<le> int (length [''cat'', ''dog'', ''sun''])
   \<and> valid_case ''mixed''
   \<and> (\<exists>words ps.
         fst (generate_memorable 2 ''mixed'' True (Some [''cat'', ''dog'', ''sun'']) demo_world)
           = Inr (join ''-'' ps)
         \<and> list_all2 (word_form ''mixed'' True) words ps
         \<and> int (length words) = 2
         \<and> mset words \<subseteq># mset [''cat'', ''dog'', ''sun'']
         \<and> (distinct [''cat'', ''dog'', ''sun''] \<longrightarrow> distinct words))"
proof -
  have h1: "(1::int) \<le> 2" by simp
  have h2: "the_pool (Some [''cat'', ''dog'', ''sun'']) demo_world
      = Inr [''cat'', ''dog'', ''sun'']"
    by (simp add: the_pool_def)
  have h3: "2 \<le> int (length [''cat'', ''dog'', ''sun''])" by simp
  have h4: "valid_case ''mixed''" by (simp add: valid_case_def)
  from generate_memorable_sampled_without_replacement [OF h1 h2 h3 h4] h1 h2 h3 h4
  show ?thesis by (intro conjI)
qed

text \<open>
  Claim C6, as stated, concludes that every hyphen-separated segment of the result ends
  in a digit. A word of the pool that has a hyphen of its own is cut into several
  segments, and only the last of them carries the digit.
\<close>

theorem generate_memorable_hyphenated_word_counterexample:
  "fst (generate_memorable 2 ''lower'' True (Some [''ice-cream'', ''sun'']) demo_world)
     = Inr ''sun3-ice-cream0''
   \<and> hyphen_segments ''sun3-ice-cream0'' = [''sun3'', ''ice'', ''cream0'']
   \<and> \<not> ends_in_digit ''ice''"
  by code_simp

lemma list_all2_word_form_hyphen:
  assumes "list_all2 (word_form c True) words ps"
    and "\<forall>wd \<in> set words. CHR ''-'' \<notin> set wd"
  shows "\<forall>p \<in> set ps. CHR ''-'' \<notin> set p \<and> ends_in_digit p"
  using assms
proof (induction rule: list_all2_induct)
  case Nil
  show ?case by simp
next
  case (Cons wd words p ps)
  then have "CHR ''-'' \<notin> set wd" by simp
  with Cons.hyps(1) have "CHR ''-'' \<notin> set p \<and> ends_in_digit p"
    by (rule word_form_digit_hyphen)
  with Cons show ?case by simp
qed

lemma apply_case_csprng: "csprng (snd (apply_case c wd w)) = csprng w"
  by (simp add: apply_case_def case_prod_beta Let_def)

lemma secrets_below_csprng:
  "csprng (snd (secrets_below n w)) = (\<lambda>i. csprng w (Suc i))"
  "fst (secrets_below n w) = csprng w 0 mod n"
  by (simp_all add: secrets_below_def)

lemma process_digits:
  "fst (process c True ws w) = Inr ps \<Longrightarrow>
     map last ps = map (\<lambda>i. digits ! (csprng w i mod length digits)) [0..<length ws]"
proof (induction ws arbitrary: w ps)
  case Nil
  then show ?case by simp
next
  case (Cons wd ws)
  let ?w1 = "snd (apply_case c wd w)"
  let ?w2 = "snd (secrets_below (length digits) ?w1)"
  from Cons.prems obtain t ps' where t: "fst (apply_case c wd w) = Inr t"
    and rest: "fst (process c True ws ?w2) = Inr ps'"
    and ps: "ps = (t @ [digits ! fst (secrets_below (length digits) ?w1)]) # ps'"
    by (auto simp add: case_prod_beta Let_def split: sum.splits)
  have "map last ps' = map (\<lambda>i. digits ! (csprng ?w2 i mod length digits)) [0..<length ws]"
    using rest by (rule Cons.IH)
  then have "map last ps' = map (\<lambda>i. digits ! (csprng w (Suc i) mod length digits)) [0..<length ws]"
    by (simp add: secrets_below_csprng apply_case_csprng)
  moreover have "last (t @ [digits ! fst (secrets_below (length digits) ?w1)])
      = digits ! (csprng w 0 mod length digits)"
    by (simp add: secrets_below_csprng apply_case_csprng)
  ultimately show ?case
    unfolding ps by (simp add: map_upt_Suc del: upt_Suc)
qed

text \<open>
  Claim C6, amended: with digits switched on, each of the \<open>N\<close> words receives exactly one
  decimal digit at its end, after the case form, and the digit of word number \<open>i\<close> comes
  from draw number \<open>i\<close> of \<^verbatim>\<open>secrets\<close>, a draw of its own; and when no word of the pool
  contains a hyphen, the hyphen-separated segments of the result are exactly these \<open>N\<close>
  processed words, so that every segment ends in the one digit appended to it.
\<close>

theorem generate_memorable_digit_suffix:
  assumes "1 \<le> n" and "the_pool np w = Inr pool" and "n \<le> int (length pool)"
    and "valid_case c"
  shows "\<exists>words ps. fst (generate_memorable n c True np w) = Inr (join ''-'' ps)
           \<and> int (length words) = n \<and> set words \<subseteq> set pool
           \<and> list_all2 (\<lambda>wd p. p \<noteq> [] \<and> last p \<in> set digits \<and> case_form c wd (butlast p))
                words ps
           \<and> map last ps = map (\<lambda>i. digits ! (csprng w i mod length digits)) [0..<nat n]
           \<and> ((\<forall>wd \<in> set pool. CHR ''-'' \<notin> set wd) \<longrightarrow>
                hyphen_segments (join ''-'' ps) = ps
                \<and> list_all ends_in_digit (hyphen_segments (join ''-'' ps)))"
proof -
  let ?words = "fst (sample pool (nat n) w)"
  obtain ps where r: "fst (generate_memorable n c True np w) = Inr (join ''-'' ps)"
    and all: "list_all2 (word_form c True) ?words ps"
    and pr: "fst (process c True ?words (snd (sample pool (nat n) w))) = Inr ps"
    using generate_memorable_valid [OF assms] by blast
  have len: "int (length ?words) = n" and sub: "set ?words \<subseteq> set pool"
    using sample_props [OF assms(1,3), of w] by blast+
  have dg: "map last ps = map (\<lambda>i. digits ! (csprng w i mod length digits)) [0..<nat n]"
    using process_digits [OF pr] by (simp add: sample_fields sample_length)
  have wf: "word_form c True = (\<lambda>wd p. p \<noteq> [] \<and> last p \<in> set digits \<and> case_form c wd (butlast p))"
    by (intro ext) (simp add: word_form_def)
  have seg: "hyphen_segments (join ''-'' ps) = ps
      \<and> list_all ends_in_digit (hyphen_segments (join ''-'' ps))"
    if free: "\<forall>wd \<in> set pool. CHR ''-'' \<notin> set wd"
  proof -
    from free sub have "\<forall>wd \<in> set ?words. CHR ''-'' \<notin> set wd" by blast
    with all have ps: "\<forall>p \<in> set ps. CHR ''-'' \<notin> set p \<and> ends_in_digit p"
      by (rule list_all2_word_form_hyphen)
    have "length ps = length ?words" using all by (simp add: list_all2_lengthD)
    with len assms(1) have "ps \<noteq> []" by auto
    with ps have "split_on CHR ''-'' (join [CHR ''-''] ps) = ps"
      by (intro split_on_join) auto
    then have "hyphen_segments (join ''-'' ps) = ps" by (simp add: hyphen_segments_def)
    with ps show ?thesis by (simp add: list_all_iff)
  qed
  show ?thesis using r len sub all dg seg unfolding wf by blast
qed

theorem generate_memorable_digit_suffix_witness:
  "(1::int) \<le> 2
   \<and> the_pool (Some [''cat'', ''dog'', ''sun'']) demo_world = Inr [''cat'', ''dog'', ''sun'']
   \<and> 2 \<le> int (length [''cat'', ''dog'', ''sun''])
   \<and> valid_case ''title''
   \<and> (\<exists>words ps.
         fst (generate_memorable 2 ''title'' True (Some [''cat'', ''dog'', ''sun'']) demo_world)
           = Inr (join ''-'' ps)
         \<and> int (length words) = 2 \<and> set words \<subseteq> set [''cat'', ''dog'', ''sun'']
         \<and> list_all2
              (\<lambda>wd p. p \<noteq> [] \<and> last p \<in> set digits \<and> case_form ''title'' wd (butlast p))
              words ps
         \<and> map last ps
             = map (\<lambda>i. digits ! (csprng demo_world i mod length digits)) [0..<nat 2]
         \<and> ((\<forall>wd \<in> set [''cat'', ''dog'', ''sun'']. CHR ''-'' \<notin> set wd) \<longrightarrow>
              hyphen_segments (join ''-'' ps) = ps
              \<and> list_all ends_in_digit (hyphen_segments (join ''-'' ps))))"
proof -
  have h1: "(1::int) \<le> 2" by simp
  have h2: "the_pool (Some [''cat'', ''dog'', ''sun'']) demo_world
      = Inr [''cat'', ''dog'', ''sun'']"
    by (simp add: the_pool_def)
  have h3: "2 \<le> int (length [''cat'', ''dog'', ''sun''])" by simp
  have h4: "valid_case ''title''" by (simp add: valid_case_def)
  from generate_memorable_digit_suffix [OF h1 h2 h3 h4] h1 h2 h3 h4
  show ?thesis by (intro conjI)
qed

section \<open>The log files\<close>

lemma append_log_fields:
  "memorable_log (append_log MEMORABLE_LOG pwd w) = memorable_log w @ now w @ ''  |  '' @ pwd @ [LF]"
  "random_log (append_log MEMORABLE_LOG pwd w) = random_log w"
  "random_log (append_log RANDOM_LOG pwd w) = random_log w @ now w @ ''  |  '' @ pwd @ [LF]"
  "memorable_log (append_log RANDOM_LOG pwd w) = memorable_log w"
  by (simp_all add: append_log_def log_line_def timestamp_def)

lemma generate_memorable_log:
  "(\<forall>pwd. fst (generate_memorable n c d np w) = Inr pwd \<longrightarrow>
       memorable_log (snd (generate_memorable n c d np w))
         = memorable_log w @ now w @ ''  |  '' @ pwd @ [LF]
       \<and> random_log (snd (generate_memorable n c d np w)) = random_log w)
   \<and> (\<forall>e. fst (generate_memorable n c d np w) = Inl e \<longrightarrow>
       memorable_log (snd (generate_memorable n c d np w)) = memorable_log w
       \<and> random_log (snd (generate_memorable n c d np w)) = random_log w)"
proof (cases "1 \<le> n \<and> (\<exists>pool. the_pool np w = Inr pool \<and> n \<le> int (length pool))")
  case False
  then show ?thesis
    by (auto simp add: generate_memorable_def split: sum.splits)
next
  case True
  then obtain pool where n: "1 \<le> n" and p: "the_pool np w = Inr pool"
    and le: "n \<le> int (length pool)" by blast
  show ?thesis
    by (simp add: generate_memorable_unfold [OF n p le] append_log_fields process_fields
        sample_fields split: sum.splits)
qed

lemma generate_random_log:
  "(\<forall>pwd. fst (generate_random len p f w) = Inr pwd \<longrightarrow>
       random_log (snd (generate_random len p f w))
         = random_log w @ now w @ ''  |  '' @ pwd @ [LF]
       \<and> memorable_log (snd (generate_random len p f w)) = memorable_log w)
   \<and> (\<forall>e. fst (generate_random len p f w) = Inl e \<longrightarrow>
       random_log (snd (generate_random len p f w)) = random_log w
       \<and> memorable_log (snd (generate_random len p f w)) = memorable_log w)"
  by (simp add: generate_random_def Let_def case_prod_beta append_log_fields choose_chars_fields)

text \<open>
  Claim C8: every successful call of \<open>generate_memorable\<close> or \<open>generate_random\<close> appends
  exactly one line, the timestamp, the separator \<^verbatim>\<open>"  |  "\<close>, the password and a line end,
  to the log file of its mode and leaves the other log file alone; the password it returns
  is the one in that line. A failing call leaves both log files as they were.
\<close>

theorem generation_logs_once_or_not_at_all:
  "(\<forall>pwd. fst (generate_memorable n c d np w) = Inr pwd \<longrightarrow>
       memorable_log (snd (generate_memorable n c d np w))
         = memorable_log w @ now w @ ''  |  '' @ pwd @ [LF]
       \<and> random_log (snd (generate_memorable n c d np w)) = random_log w)
   \<and> (\<forall>e. fst (generate_memorable n c d np w) = Inl e \<longrightarrow>
       memorable_log (snd (generate_memorable n c d np w)) = memorable_log w
       \<and> random_log (snd (generate_memorable n c d np w)) = random_log w)
   \<and> (\<forall>pwd. fst (generate_random len p f w) = Inr pwd \<longrightarrow>
       random_log (snd (generate_random len p f w))
         = random_log w @ now w @ ''  |  '' @ pwd @ [LF]
       \<and> memorable_log (snd (generate_random len p f w)) = memorable_log w)
   \<and> (\<forall>e. fst (generate_random len p f w) = Inl e \<longrightarrow>
       random_log (snd (generate_random len p f w)) = random_log w
       \<and> memorable_log (snd (generate_random len p f w)) = memorable_log w)"
  using generate_memorable_log [of n c d np w] generate_random_log [of len p f w]
  by (intro conjI) (elim conjE, assumption)+

theorem generation_logs_once_or_not_at_all_witness:
  "fst (generate_memorable 2 ''title'' True None demo_world) = Inr ''Dog3-Sun0''
   \<and> memorable_log (snd (generate_memorable 2 ''title'' True None demo_world))
       = memorable_log demo_world @ now demo_world @ ''  |  '' @ ''Dog3-Sun0'' @ [LF]
   \<and> random_log (snd (generate_memorable 2 ''title'' True None demo_world))
       = random_log demo_world
   \<and> fst (generate_random 0 True None demo_world) = Inl (ValueError ''length must be >= 1.'')
   \<and> random_log (snd (generate_random 0 True None demo_world)) = random_log demo_world
   \<and> memorable_log (snd (generate_random 0 True None demo_world)) = memorable_log demo_world"
proof -
  have h1: "fst (generate_memorable 2 ''title'' True None demo_world) = Inr ''Dog3-Sun0''"
    by code_simp
  have h2: "fst (generate_random 0 True None demo_world)
      = Inl (ValueError ''length must be >= 1.'')"
    by (simp add: generate_random_def)
  from generation_logs_once_or_not_at_all
    [of 2 "''title''" True None demo_world 0 True None] h1 h2
  show ?thesis by blast
qed

end
